theory Spec2Isabelle
  imports Complex_Main "HOL-Library.Word"
begin

section \<open>Keys and the emergency kill listener (frontend.py)\<close>

text \<open>
  A key delivered by the keyboard listener is either a member of the enumeration
  \<^verbatim>\<open>keyboard.Key\<close> or a \<^verbatim>\<open>keyboard.KeyCode\<close> with the fields \<^verbatim>\<open>vk\<close>,
  \<^verbatim>\<open>char\<close> and \<^verbatim>\<open>is_dead\<close>. An enumeration member is given by what it is, not by a
  name: \<open>Ctrl_l\<close>, \<open>Ctrl_r\<close> and \<open>Shift_l\<close> are the members that \<^verbatim>\<open>Key.ctrl_l\<close>,
  \<^verbatim>\<open>Key.ctrl_r\<close> and \<^verbatim>\<open>Key.shift_l\<close> denote (on some platforms the same member has a
  second name, as \<^verbatim>\<open>Key.ctrl\<close> for \<^verbatim>\<open>Key.ctrl_l\<close>), \<open>Other_special n\<close> is any other
  member.
\<close>

datatype special = Ctrl_l | Ctrl_r | Shift_l | Other_special nat

datatype key =
    Key special
  | KeyCode (vk: "nat option") (char: "string option") (is_dead: bool)

text \<open>
  Two keys are the same element of a Python set when their hashes agree and they compare
  equal. For key codes \<^verbatim>\<open>__hash__\<close> is the hash of \<^verbatim>\<open>repr\<close> and \<^verbatim>\<open>__eq__\<close> compares
  \<^verbatim>\<open>char\<close> and \<^verbatim>\<open>is_dead\<close> when both keys have a \<^verbatim>\<open>char\<close>, and \<^verbatim>\<open>vk\<close> otherwise.
  So two key codes with a \<^verbatim>\<open>char\<close> are the same element when \<^verbatim>\<open>char\<close> and
  \<^verbatim>\<open>is_dead\<close> agree, whatever their \<^verbatim>\<open>vk\<close>; two key codes without a \<^verbatim>\<open>char\<close> when
  their \<^verbatim>\<open>vk\<close> agree; a key code with a \<^verbatim>\<open>char\<close> and one without never (their
  \<^verbatim>\<open>repr\<close> differ); two enumeration members when they are the same member.
  \<open>key_ident\<close> maps a key to the representative of the keys it is the same element as.
\<close>

definition key_ident :: "key \<Rightarrow> key" where
  "key_ident k = (case k of KeyCode v (Some c) d \<Rightarrow> KeyCode None (Some c) d | _ \<Rightarrow> k)"

text \<open>
  The operations of the source on sets of keys: \<^verbatim>\<open>k in S\<close>, \<^verbatim>\<open>S.add(k)\<close>,
  \<^verbatim>\<open>S.discard(k)\<close> and \<^verbatim>\<open>S >= T\<close>.
\<close>

definition key_in :: "key \<Rightarrow> key set \<Rightarrow> bool" where
  "key_in k S \<longleftrightarrow> key_ident k \<in> key_ident ` S"

definition keys_add :: "key \<Rightarrow> key set \<Rightarrow> key set" where
  "keys_add k S = (if key_in k S then S else insert k S)"

definition keys_discard :: "key \<Rightarrow> key set \<Rightarrow> key set" where
  "keys_discard k S = {x \<in> S. key_ident x \<noteq> key_ident k}"

definition keys_superset :: "key set \<Rightarrow> key set \<Rightarrow> bool" where
  "keys_superset S T \<longleftrightarrow> (\<forall>k\<in>T. key_in k S)"

text \<open>
  \<^verbatim>\<open>{keyboard.Key.ctrl_l, keyboard.Key.shift_l, keyboard.KeyCode(char='q')}\<close>: the key
  code is built with \<^verbatim>\<open>vk\<close> left out.
\<close>

definition KILL_COMBO :: "key set" where
  "KILL_COMBO = {Key Ctrl_l, Key Shift_l, KeyCode None (Some ''q'') False}"

text \<open>
  \<^verbatim>\<open>_kill_press(key)\<close> works on the global \<^verbatim>\<open>_keys_held\<close>. The result is the set after
  the call and the exit status when \<^verbatim>\<open>os._exit\<close> was called (\<open>None\<close>: the process goes on).
\<close>

definition kill_press :: "key \<Rightarrow> key set \<Rightarrow> key set \<times> int option" where
  "kill_press key held =
     (if key_in key KILL_COMBO then
        (let held' = keys_add key held
         in if keys_superset held' KILL_COMBO then (held', Some 1) else (held', None))
      else (held, None))"

definition kill_release :: "key \<Rightarrow> key set \<Rightarrow> key set" where
  "kill_release key held = keys_discard key held"

section \<open>Audio capture (frontend.py)\<close>

text \<open>
  A chunk is what \<^verbatim>\<open>_audio_callback\<close> queued: the int16 samples of one block of the
  single input channel. The flag \<^verbatim>\<open>recording_flag[0]\<close> and the queue \<^verbatim>\<open>audio_q\<close> are
  written by other threads, so the loop of \<^verbatim>\<open>record_until_toggle\<close> is run against what it
  observes, one observation for each evaluation of the loop condition:
  the flag read false; the flag read true and \<^verbatim>\<open>audio_q.get(timeout=0.1)\<close> returned a
  chunk; the flag read true and the get raised \<^verbatim>\<open>queue.Empty\<close>.
  When the observations end before the flag reads false the loop has not ended: \<open>None\<close>.
\<close>

type_synonym chunk = "16 word list"

datatype observation = Flag_off | Got chunk | Queue_empty

record wav =
  rate :: nat
  channels :: nat
  samples :: "16 word list"

type_synonym path = string

fun capture_loop :: "observation list \<Rightarrow> chunk list \<Rightarrow> chunk list option" where
  "capture_loop [] frames = None"
| "capture_loop (Flag_off # rest) frames = Some frames"
| "capture_loop (Got c # rest) frames = capture_loop rest (frames @ [c])"
| "capture_loop (Queue_empty # rest) frames = capture_loop rest frames"

text \<open>
  \<^verbatim>\<open>record_until_toggle(path, sr=16_000)\<close>: the argument \<open>sr_arg\<close> is \<open>None\<close> when the
  caller leaves \<^verbatim>\<open>sr\<close> out, as \<^verbatim>\<open>process_audio_flow\<close> does. The stream is opened with
  \<^verbatim>\<open>channels=1\<close>, so the concatenation along axis 0 is one column of samples.
\<close>

definition record_until_toggle ::
  "path \<Rightarrow> nat option \<Rightarrow> observation list \<Rightarrow> (path \<rightharpoonup> wav) \<Rightarrow> (bool \<times> (path \<rightharpoonup> wav)) option" where
  "record_until_toggle p sr_arg obs files =
     (let sr = (case sr_arg of None \<Rightarrow> 16000 | Some s \<Rightarrow> s)
      in case capture_loop obs [] of
           None \<Rightarrow> None
         | Some frames \<Rightarrow>
             if frames = [] then Some (False, files)
             else Some (True, files(p \<mapsto> \<lparr>rate = sr, channels = 1, samples = concat frames\<rparr>)))"

text \<open>The chunks the loop receives before the flag first reads false, in arrival order.\<close>

definition chunks_got :: "observation list \<Rightarrow> chunk list" where
  "chunks_got obs =
     concat (map (\<lambda>ob. case ob of Got c \<Rightarrow> [c] | _ \<Rightarrow> [])
                 (takeWhile (\<lambda>ob. ob \<noteq> Flag_off) obs))"

section \<open>Transcription client (frontend.py)\<close>

text \<open>
  What \<^verbatim>\<open>r.json()\<close> returns: a parsed JSON value. An object is the list of the items of
  the parsed dictionary (its keys are distinct).
\<close>

datatype pyjson =
    JNull
  | JBool bool
  | JNum rat
  | JStr string
  | JArr "pyjson list"
  | JObj "(string \<times> pyjson) list"

datatype error =
    FileNotFoundError
  | ConnectionError
  | JSONDecodeError
  | AttributeError
  | ValueError
  | TypeError
  | OSError

text \<open>
  A response of the server as the client reads it: \<^verbatim>\<open>r.ok\<close>, and the value of
  \<^verbatim>\<open>r.json()\<close>, which is \<open>None\<close> when the body is not JSON and the call raises.
\<close>

record response =
  ok :: bool
  body :: "pyjson option"

text \<open>
  \<^verbatim>\<open>send_audio(path)\<close>: \<open>files\<close> is the file system the client reads, \<open>post\<close> what
  \<^verbatim>\<open>requests.post\<close> does with the opened file (\<open>None\<close>: it raises, no response arrived).
\<close>

definition send_audio ::
  "(path \<rightharpoonup> 'f) \<Rightarrow> ('f \<Rightarrow> response option) \<Rightarrow> path \<Rightarrow> error + pyjson" where
  "send_audio files post p =
     (case files p of
        None \<Rightarrow> Inl FileNotFoundError
      | Some f \<Rightarrow>
          (case post f of
             None \<Rightarrow> Inl ConnectionError
           | Some r \<Rightarrow>
               if ok r then
                 (case body r of
                    None \<Rightarrow> Inl JSONDecodeError
                  | Some (JObj items) \<Rightarrow>
                      (case map_of items ''text'' of
                         None \<Rightarrow> Inr (JStr ''<err>'')
                       | Some v \<Rightarrow> Inr v)
                  | Some _ \<Rightarrow> Inl AttributeError)
               else Inr (JStr ''<err>'')))"

text \<open>The \<^verbatim>\<open>text\<close> field of the response's JSON object, when there is one.\<close>

definition text_field :: "response \<Rightarrow> pyjson option" where
  "text_field r = (case body r of Some (JObj items) \<Rightarrow> map_of items ''text'' | _ \<Rightarrow> None)"

section \<open>Transcription service (main.py)\<close>

type_synonym bytes = "8 word list"

text \<open>
  \<^verbatim>\<open>os.path.splitext(name)[1]\<close>: the extension starts at the last dot of the last path
  component, leading dots of that component apart.
\<close>

definition splitext_ext :: "string \<Rightarrow> string" where
  "splitext_ext name =
     (let base = rev (takeWhile (\<lambda>c. c \<noteq> CHR ''/'') (rev name));
          stem = dropWhile (\<lambda>c. c = CHR ''.'') base
      in if CHR ''.'' \<in> set stem
         then CHR ''.'' # rev (takeWhile (\<lambda>c. c \<noteq> CHR ''.'') (rev stem))
         else [])"

text \<open>
  A Python string is modelled by the bytes of its UTF-8 encoding. \<open>whitespace\<close> lists the
  encodings of the characters that \<^verbatim>\<open>str.strip()\<close> removes: U+0009 to U+000D, U+001C to
  U+0020, U+0085, U+00A0, U+1680, U+2000 to U+200A, U+2028, U+2029, U+202F, U+205F, U+3000.
\<close>

definition whitespace :: "string list" where
  "whitespace =
     [[CHR 0x09], [CHR 0x0A], [CHR 0x0B], [CHR 0x0C], [CHR 0x0D],
      [CHR 0x1C], [CHR 0x1D], [CHR 0x1E], [CHR 0x1F], [CHR 0x20],
      [CHR 0xC2, CHR 0x85], [CHR 0xC2, CHR 0xA0], [CHR 0xE1, CHR 0x9A, CHR 0x80],
      [CHR 0xE2, CHR 0x80, CHR 0x80], [CHR 0xE2, CHR 0x80, CHR 0x81],
      [CHR 0xE2, CHR 0x80, CHR 0x82], [CHR 0xE2, CHR 0x80, CHR 0x83],
      [CHR 0xE2, CHR 0x80, CHR 0x84], [CHR 0xE2, CHR 0x80, CHR 0x85],
      [CHR 0xE2, CHR 0x80, CHR 0x86], [CHR 0xE2, CHR 0x80, CHR 0x87],
      [CHR 0xE2, CHR 0x80, CHR 0x88], [CHR 0xE2, CHR 0x80, CHR 0x89],
      [CHR 0xE2, CHR 0x80, CHR 0x8A], [CHR 0xE2, CHR 0x80, CHR 0xA8],
      [CHR 0xE2, CHR 0x80, CHR 0xA9], [CHR 0xE2, CHR 0x80, CHR 0xAF],
      [CHR 0xE2, CHR 0x81, CHR 0x9F], [CHR 0xE3, CHR 0x80, CHR 0x80]]"

text \<open>Removing from the front of \<open>s\<close>, again and again, any of the sequences \<open>ps\<close>.\<close>

function strip_prefixes :: "string list \<Rightarrow> string \<Rightarrow> string" where
  "strip_prefixes ps s =
     (case find (\<lambda>p. p \<noteq> [] \<and> take (length p) s = p) ps of
        None \<Rightarrow> s
      | Some p \<Rightarrow> strip_prefixes ps (drop (length p) s))"
  by pat_completeness auto
termination
proof (relation "measure (\<lambda>(ps, s). length s)")
  show "wf (measure (\<lambda>(ps, s). length s))" by simp
next
  fix ps :: "string list" and s p :: string
  assume "find (\<lambda>p. p \<noteq> [] \<and> take (length p) s = p) ps = Some p"
  then have ne: "p \<noteq> []" and tk: "take (length p) s = p"
    by (auto simp: find_Some_iff)
  from tk have "length p \<le> length s"
    by (auto simp: min_def dest: arg_cong [where f = length] split: if_splits)
  with ne show "((ps, drop (length p) s), (ps, s)) \<in> measure (\<lambda>(ps, s). length s)"
    by (cases p) simp_all
qed

declare strip_prefixes.simps [simp del]

text \<open>\<^verbatim>\<open>str.strip()\<close>: white space is removed at the front and at the end.\<close>

definition strip :: "string \<Rightarrow> string" where
  "strip s = rev (strip_prefixes (map rev whitespace) (rev (strip_prefixes whitespace s)))"

text \<open>
  The uploaded file (\<^verbatim>\<open>UploadFile\<close>): its \<^verbatim>\<open>filename\<close>, which may be absent, and the
  bytes of its stream.
\<close>

record upload =
  filename :: "string option"
  content :: bytes

text \<open>
  What the handler meets outside its own code: the name \<^verbatim>\<open>NamedTemporaryFile\<close> picks
  for a suffix; whether \<^verbatim>\<open>shutil.copyfileobj\<close> raises, and after how many bytes
  (\<open>None\<close>: the copy completes); and \<^verbatim>\<open>model.transcribe\<close> followed by
  \<^verbatim>\<open>result["text"]\<close>, which yields the text or raises an exception with a message.
\<close>

record server_env =
  temp_name :: "string \<Rightarrow> path"
  copy_fault :: "nat option"
  model_transcribe :: "(path \<rightharpoonup> bytes) \<Rightarrow> path \<Rightarrow> string + string"

datatype http_result =
    JSONResponse "(string \<times> pyjson) list"
  | HTTPException nat string
  | Unhandled error

text \<open>
  \<^verbatim>\<open>transcribe_audio(file)\<close>: the result is what leaves the handler (a response, the
  \<^verbatim>\<open>HTTPException\<close> it raises, or an exception it does not catch) and the files of the
  server afterwards.
\<close>

definition transcribe_audio ::
  "server_env \<Rightarrow> upload \<Rightarrow> (path \<rightharpoonup> bytes) \<Rightarrow> http_result \<times> (path \<rightharpoonup> bytes)" where
  "transcribe_audio env file files =
     (case filename file of
        None \<Rightarrow> (Unhandled TypeError, files)
      | Some name \<Rightarrow>
          (let suffix = splitext_ext name;
               temp_path = temp_name env suffix;
               files1 = files(temp_path \<mapsto> [])
           in case copy_fault env of
                Some n \<Rightarrow> (Unhandled OSError, files1(temp_path \<mapsto> take n (content file)))
              | None \<Rightarrow>
                  (let files2 = files1(temp_path \<mapsto> content file);
                       result =
                         (case model_transcribe env files2 temp_path of
                            Inr text \<Rightarrow> JSONResponse [(''text'', JStr (strip text))]
                          | Inl e \<Rightarrow> HTTPException 500 (''Transcription failed: '' @ e))
                   in (result,
                       if temp_path \<in> dom files2 then files2(temp_path := None)
                       else files2))))"

section \<open>Macro recording and playback (frontend.py)\<close>

datatype button = Button_left | Button_middle | Button_right | Button_unknown

text \<open>The components of the tuple stored under \<^verbatim>\<open>"data"\<close>.\<close>

datatype pyval = PInt int | PStr string | PButton button

text \<open>
  An action record is the dictionary with the keys \<^verbatim>\<open>"t"\<close>, \<^verbatim>\<open>"type"\<close> and
  \<^verbatim>\<open>"data"\<close>. Times are seconds, as rational numbers.
\<close>

record step =
  step_t :: rat
  step_type :: string
  step_data :: "pyval list"

datatype gui_update =
    Status_recording_macro
  | Status_macro_captured nat
  | Status_no_steps
  | Listen_btn_normal
  | Copy_btn_normal

text \<open>
  Everything the macro code exchanges with the outside, in the order it happens: a reading
  of \<^verbatim>\<open>time.time()\<close>, a \<^verbatim>\<open>time.sleep\<close>, a write to the clipboard, the calls of
  \<^verbatim>\<open>pyautogui\<close>, an update of a widget.
\<close>

datatype io =
    TimeRead rat
  | Sleep rat
  | ClipCopy string
  | MoveTo pyval pyval
  | Click
  | Hotkey "pyval list"
  | Gui gui_update

text \<open>
  The globals \<^verbatim>\<open>macro\<close> and \<^verbatim>\<open>_keys_held\<close>, the clipboard, the readings that
  \<^verbatim>\<open>time.time()\<close> will return from now on, and the trace of what was done so far.
\<close>

record world =
  macro :: "step list"
  keys_held :: "key set"
  clipboard :: string
  clock :: "rat list"
  trace :: "io list"

definition emit :: "io list \<Rightarrow> world \<Rightarrow> world" where
  "emit es w = w\<lparr>trace := trace w @ es\<rparr>"

text \<open>\<^verbatim>\<open>time.time()\<close>; \<open>None\<close> when the model has no further reading.\<close>

definition time_time :: "world \<Rightarrow> (rat \<times> world) option" where
  "time_time w =
     (case clock w of
        [] \<Rightarrow> None
      | now # later \<Rightarrow> Some (now, emit [TimeRead now] (w\<lparr>clock := later\<rparr>)))"

subsection \<open>\<^verbatim>\<open>record_macro\<close>\<close>

text \<open>
  The events the two listeners of \<^verbatim>\<open>record_macro\<close> are called with, each with the value
  \<^verbatim>\<open>time.time()\<close> has while its callback runs.
\<close>

datatype input_event =
    Click_event int int button bool
  | Press_event key
  | Release_event key

text \<open>
  The locals of one call: \<^verbatim>\<open>stop_record["flag"]\<close>, and whether the mouse listener
  \<^verbatim>\<open>ml\<close> and the keyboard listener \<^verbatim>\<open>kl\<close> are still running (a callback that
  returns \<open>False\<close> stops its listener).
\<close>

record session =
  stop_record :: bool
  ml_running :: bool
  kl_running :: bool

definition on_click ::
  "rat \<Rightarrow> rat \<Rightarrow> int \<Rightarrow> int \<Rightarrow> button \<Rightarrow> bool \<Rightarrow> session \<times> world \<Rightarrow> session \<times> world" where
  "on_click start now x y btn pressed sw =
     (case sw of (s, w) \<Rightarrow>
        if stop_record s then (s\<lparr>ml_running := False\<rparr>, w)
        else if pressed then
          (s, w\<lparr>macro := macro w @
                 [\<lparr>step_t = now - start, step_type = ''mouse'',
                   step_data = [PInt x, PInt y, PButton btn]\<rparr>]\<rparr>)
        else (s, w))"

definition on_press :: "key \<Rightarrow> session \<times> world \<Rightarrow> session \<times> world" where
  "on_press k sw =
     (case sw of (s, w) \<Rightarrow>
        if (case k of KeyCode v c d \<Rightarrow> c = Some ''s'' | Key _ \<Rightarrow> False)
        then (s\<lparr>stop_record := True, kl_running := False\<rparr>, w)
        else (s, w\<lparr>keys_held := keys_add k (keys_held w)\<rparr>))"

definition V_VK :: nat where
  "V_VK = 0x56"

definition on_release :: "rat \<Rightarrow> rat \<Rightarrow> key \<Rightarrow> session \<times> world \<Rightarrow> session \<times> world" where
  "on_release start now k sw =
     (case sw of (s, w) \<Rightarrow>
        (let w1 =
           (if (case k of KeyCode v c d \<Rightarrow> v = Some V_VK | Key _ \<Rightarrow> False)
               \<and> (key_in (Key Ctrl_l) (keys_held w) \<or> key_in (Key Ctrl_r) (keys_held w))
            then w\<lparr>macro := macro w @
                     [\<lparr>step_t = now - start, step_type = ''hotkey'',
                       step_data = [PStr ''ctrl'', PStr ''v'']\<rparr>]\<rparr>
            else w)
         in (s, w1\<lparr>keys_held := keys_discard k (keys_held w1)\<rparr>)))"

text \<open>The locals when the two listeners are started.\<close>

definition new_session :: session where
  "new_session = \<lparr>stop_record = False, ml_running = True, kl_running = True\<rparr>"

text \<open>A listener that has stopped no longer calls its callbacks.\<close>

fun handle :: "rat \<Rightarrow> rat \<times> input_event \<Rightarrow> session \<times> world \<Rightarrow> session \<times> world" where
  "handle start (now, Click_event x y btn pressed) sw =
     (if ml_running (fst sw) then on_click start now x y btn pressed sw else sw)"
| "handle start (now, Press_event k) sw =
     (if kl_running (fst sw) then on_press k sw else sw)"
| "handle start (now, Release_event k) sw =
     (if kl_running (fst sw) then on_release start now k sw else sw)"

fun run_listeners ::
  "rat \<Rightarrow> (rat \<times> input_event) list \<Rightarrow> session \<times> world \<Rightarrow> session \<times> world" where
  "run_listeners start [] sw = sw"
| "run_listeners start (e # rest) sw = run_listeners start rest (handle start e sw)"

text \<open>The first two statements of \<^verbatim>\<open>record_macro\<close>.\<close>

definition record_macro_begin :: "world \<Rightarrow> world" where
  "record_macro_begin w = emit [Gui Status_recording_macro] (w\<lparr>macro := []\<rparr>)"

text \<open>
  \<^verbatim>\<open>record_macro()\<close>, with the reading \<open>start\<close> of the clock and the events that arrive
  while it runs. The two \<^verbatim>\<open>join\<close> calls return once both listeners have stopped; if the
  events end before that, the call has not returned: \<open>None\<close>.
\<close>

definition record_macro ::
  "rat \<Rightarrow> (rat \<times> input_event) list \<Rightarrow> world \<Rightarrow> world option" where
  "record_macro start evs w =
     (case run_listeners start evs (new_session, record_macro_begin w) of
        (s, w1) \<Rightarrow>
          if ml_running s \<or> kl_running s then None
          else if macro w1 \<noteq> [] then
            Some (emit [Gui Listen_btn_normal, Gui Copy_btn_normal,
                        Gui (Status_macro_captured (length (macro w1)))] w1)
          else Some (emit [Gui Status_no_steps] w1))"

subsection \<open>\<^verbatim>\<open>play_macro\<close>\<close>

text \<open>
  The loop \<^verbatim>\<open>while time.time() - t0 < step["t"]: time.sleep(0.002)\<close>. Each round takes
  one reading of the clock, so the recursion ends with the readings.
\<close>

function wait_until :: "rat \<Rightarrow> rat \<Rightarrow> world \<Rightarrow> world option" where
  "wait_until t0 offset w =
     (case time_time w of
        None \<Rightarrow> None
      | Some (now, w1) \<Rightarrow>
          if now - t0 < offset then wait_until t0 offset (emit [Sleep 0.002] w1)
          else Some w1)"
  by pat_completeness auto
termination
  by (relation "measure (\<lambda>(t0, offset, w). length (clock w))")
     (auto simp: time_time_def emit_def split: list.splits)

declare wait_until.simps [simp del]

text \<open>
  What the body of the \<^verbatim>\<open>for\<close> loop does with one record after the wait: unpacking
  \<^verbatim>\<open>x, y, btn = step["data"]\<close> raises \<^verbatim>\<open>ValueError\<close> unless there are three
  components; a record of another type is passed over.
\<close>

definition step_action :: "step \<Rightarrow> error + io list" where
  "step_action s =
     (if step_type s = ''mouse'' then
        (case step_data s of
           [x, y, btn] \<Rightarrow> Inr [MoveTo x y, Click]
         | _ \<Rightarrow> Inl ValueError)
      else if step_type s = ''hotkey'' then Inr [Hotkey (step_data s)]
      else Inr [])"

text \<open>
  The \<^verbatim>\<open>for\<close> loop. \<open>Inl (e, w)\<close>: the exception \<open>e\<close> left the loop in world \<open>w\<close>.
\<close>

fun play_steps :: "rat \<Rightarrow> step list \<Rightarrow> world \<Rightarrow> ((error \<times> world) + world) option" where
  "play_steps t0 [] w = Some (Inr w)"
| "play_steps t0 (s # rest) w =
     (case wait_until t0 (step_t s) w of
        None \<Rightarrow> None
      | Some w1 \<Rightarrow>
          (case step_action s of
             Inl e \<Rightarrow> Some (Inl (e, w1))
           | Inr acts \<Rightarrow> play_steps t0 rest (emit acts w1)))"

definition play_macro :: "string \<Rightarrow> world \<Rightarrow> ((error \<times> world) + world) option" where
  "play_macro text w =
     (if macro w = [] then Some (Inr w)
      else
        (let w1 = emit [ClipCopy text] (w\<lparr>clipboard := text\<rparr>)
         in case time_time w1 of
              None \<Rightarrow> None
            | Some (t0, w2) \<Rightarrow> play_steps t0 (macro w2) w2))"

section \<open>Notions used in the statements\<close>

text \<open>
  Readings of the clock and sleeps: the events of the wait loop.
\<close>

definition is_timing :: "io \<Rightarrow> bool" where
  "is_timing e = (case e of TimeRead _ \<Rightarrow> True | Sleep _ \<Rightarrow> True | _ \<Rightarrow> False)"

text \<open>
  The readings of the clock in a trace, in order.
\<close>

definition clock_reads :: "io list \<Rightarrow> rat list" where
  "clock_reads tr = concat (map (\<lambda>e. case e of TimeRead r \<Rightarrow> [r] | _ \<Rightarrow> []) tr)"

text \<open>
  A trace without the events of the wait loop.
\<close>

definition injected :: "io list \<Rightarrow> io list" where
  "injected tr = filter (\<lambda>e. \<not> is_timing e) tr"

text \<open>
  The calls of \<^verbatim>\<open>pyautogui\<close> that replay one record.
\<close>

definition actions_of :: "step \<Rightarrow> io list" where
  "actions_of s = (case step_action s of Inl e \<Rightarrow> [] | Inr acts \<Rightarrow> acts)"

text \<open>
  A stretch of the trace that replays record \<open>s\<close> after waiting for its offset: events of the
  wait loop, then a reading of the clock at which the time elapsed since \<open>t0\<close> has reached the
  offset, then the record's actions.
\<close>

definition released :: "rat \<Rightarrow> step \<Rightarrow> io list \<Rightarrow> bool" where
  "released t0 s seg \<longleftrightarrow>
     (\<exists>pre r. seg = pre @ TimeRead r # actions_of s
        \<and> (\<forall>e\<in>set pre. is_timing e) \<and> step_t s \<le> r - t0)"

text \<open>
  The time between the first and the last reading of the clock that a call makes, from the
  trace \<open>w\<close> had before the call and the trace of \<open>w'\<close> after it.
\<close>

definition playback_duration :: "world \<Rightarrow> world \<Rightarrow> rat" where
  "playback_duration w w' =
     (let rs = clock_reads (drop (length (trace w)) (trace w')) in last rs - hd rs)"

text \<open>
  A world with a macro of two records, and the world after \<^verbatim>\<open>play_macro("hi")\<close> in it.
\<close>

definition demo_world :: world where
  "demo_world =
     \<lparr>macro = [\<lparr>step_t = 0.5, step_type = ''mouse'',
                 step_data = [PInt 10, PInt 20, PButton Button_left]\<rparr>,
               \<lparr>step_t = 1.25, step_type = ''hotkey'',
                 step_data = [PStr ''ctrl'', PStr ''v'']\<rparr>],
      keys_held = {}, clipboard = ''old'',
      clock = [100, 100.3, 100.6, 101.5, 102], trace = []\<rparr>"

definition demo_played :: world where
  "demo_played =
     \<lparr>macro = [\<lparr>step_t = 0.5, step_type = ''mouse'',
                 step_data = [PInt 10, PInt 20, PButton Button_left]\<rparr>,
               \<lparr>step_t = 1.25, step_type = ''hotkey'',
                 step_data = [PStr ''ctrl'', PStr ''v'']\<rparr>],
      keys_held = {}, clipboard = ''hi'',
      clock = [102],
      trace = [ClipCopy ''hi'', TimeRead 100, TimeRead 100.3, Sleep 0.002, TimeRead 100.6,
               MoveTo (PInt 10) (PInt 20), Click, TimeRead 101.5,
               Hotkey [PStr ''ctrl'', PStr ''v'']]\<rparr>"

text \<open>
  The shape of the records that \<^verbatim>\<open>record_macro\<close> appends: a mouse record with a payload of
  three components, or a hotkey record with the payload \<^verbatim>\<open>("ctrl", "v")\<close>.
\<close>

definition recorded_shape :: "step \<Rightarrow> bool" where
  "recorded_shape s \<longleftrightarrow>
     (step_type s = ''mouse'' \<and> length (step_data s) = 3)
     \<or> (step_type s = ''hotkey'' \<and> step_data s = [PStr ''ctrl'', PStr ''v''])"

text \<open>
  The clock gets far enough for the macro of \<open>w\<close>: after the first reading \<open>t0\<close> its
  readings end with at least one reading for each record, each of them no earlier than
  \<open>t0\<close> plus the offset of any record.
\<close>

definition clock_reaches :: "world \<Rightarrow> bool" where
  "clock_reaches w \<longleftrightarrow>
     (\<exists>t0 pre post. clock w = t0 # pre @ post \<and> length (macro w) \<le> length post
        \<and> (\<forall>r\<in>set post. \<forall>s\<in>set (macro w). step_t s \<le> r - t0))"

text \<open>
  The records that the listeners of \<^verbatim>\<open>record_macro\<close> append for the events \<open>evs\<close> when
  they start on an empty macro list with the keys \<open>held\<close> held: what they build in a world
  that holds nothing else.
\<close>

definition blank_world :: "key set \<Rightarrow> world" where
  "blank_world held = \<lparr>macro = [], keys_held = held, clipboard = [], clock = [], trace = []\<rparr>"

definition session_records :: "rat \<Rightarrow> (rat \<times> input_event) list \<Rightarrow> key set \<Rightarrow> step list" where
  "session_records start evs held =
     macro (snd (run_listeners start evs (new_session, blank_world held)))"

text \<open>
  The events contain a press of the stop key \<^verbatim>\<open>s\<close> and, later, a mouse click: the press
  stops the keyboard listener and the click then stops the mouse listener.
\<close>

definition stop_then_click :: "(rat \<times> input_event) list \<Rightarrow> bool" where
  "stop_then_click evs \<longleftrightarrow>
     (\<exists>pre t1 v d mid t2 x y b p post.
        evs = pre @ (t1, Press_event (KeyCode v (Some ''s'') d)) # mid
                  @ (t2, Click_event x y b p) # post)"

text \<open>
  A recording session started at clock reading 10 in a world that still holds the macro of
  an earlier session: a click, Ctrl+V, the stop key, and the click that stops the mouse
  listener. It records the macro of \<open>demo_world\<close>.
\<close>

definition demo_events :: "(rat \<times> input_event) list" where
  "demo_events =
     [(10.5, Click_event 10 20 Button_left True),
      (10.6, Click_event 10 20 Button_left False),
      (11, Press_event (Key Ctrl_l)),
      (11.1, Press_event (KeyCode (Some 86) (Some ''v'') False)),
      (11.25, Release_event (KeyCode (Some 86) (Some ''v'') False)),
      (11.3, Release_event (Key Ctrl_l)),
      (12, Press_event (KeyCode (Some 83) (Some ''s'') False)),
      (12.5, Click_event 0 0 Button_left True)]"

definition stale_world :: world where
  "stale_world =
     \<lparr>macro = [\<lparr>step_t = 7, step_type = ''mouse'',
                 step_data = [PInt 1, PInt 2, PButton Button_right]\<rparr>],
      keys_held = {}, clipboard = ''old'', clock = [], trace = []\<rparr>"

definition demo_recorded :: world where
  "demo_recorded =
     \<lparr>macro = [\<lparr>step_t = 0.5, step_type = ''mouse'',
                 step_data = [PInt 10, PInt 20, PButton Button_left]\<rparr>,
               \<lparr>step_t = 1.25, step_type = ''hotkey'',
                 step_data = [PStr ''ctrl'', PStr ''v'']\<rparr>],
      keys_held = {}, clipboard = ''old'', clock = [],
      trace = [Gui Status_recording_macro, Gui Listen_btn_normal, Gui Copy_btn_normal,
               Gui (Status_macro_captured 2)]\<rparr>"

text \<open>Responses of the server: the documented one, and two that the client can also meet.\<close>

definition ok_hello :: response where
  "ok_hello = \<lparr>ok = True, body = Some (JObj [(''text'', JStr ''hello'')])\<rparr>"

definition ok_text_is_sentinel :: response where
  "ok_text_is_sentinel = \<lparr>ok = True, body = Some (JObj [(''text'', JStr ''<err>'')])\<rparr>"

definition ok_not_json :: response where
  "ok_not_json = \<lparr>ok = True, body = None\<rparr>"

text \<open>
  A server whose temporary files are named \<^verbatim>\<open>/tmp/tmpabc\<close> plus the suffix, whose model
  fails on an empty file and otherwise hears "hello world", and where the copy of the upload
  fails as \<open>fault\<close> says.
\<close>

definition demo_env :: "nat option \<Rightarrow> server_env" where
  "demo_env fault =
     \<lparr>temp_name = (\<lambda>suffix. ''/tmp/tmpabc'' @ suffix),
      copy_fault = fault,
      model_transcribe = (\<lambda>files p. if files p = Some [] then Inl ''empty audio''
                                     else Inr '' hello world '')\<rparr>"

section \<open>Properties of the kill listener\<close>

lemma key_in_KILL_COMBO:
  "key_in k KILL_COMBO \<longleftrightarrow>
     k = Key Ctrl_l \<or> k = Key Shift_l \<or> (\<exists>v. k = KeyCode v (Some ''q'') False)"
  by (cases k) (auto simp: key_in_def key_ident_def KILL_COMBO_def split: option.splits)

lemma keys_discard_empty [simp]: "keys_discard k {} = {}"
  by (simp add: keys_discard_def)

lemma keys_discard_insert [simp]:
  "keys_discard k (insert x S) =
     (if key_ident x = key_ident k then keys_discard k S else insert x (keys_discard k S))"
  by (auto simp: keys_discard_def)

lemma key_in_keys_add: "key_in k (keys_add k S)"
  by (simp add: keys_add_def key_in_def)

lemma key_in_keys_discard: "\<not> key_in k (keys_discard k S)"
  by (auto simp: keys_discard_def key_in_def)

text \<open>
  The keys as a listener delivers them carry a \<^verbatim>\<open>vk\<close>: the press of \<^verbatim>\<open>q\<close> is the same
  element as the key code of the combination, and with left Ctrl and left Shift held the
  handler exits.
\<close>

lemma kill_press_delivered_q:
  "kill_press (KeyCode (Some 81) (Some ''q'') False) {Key Ctrl_l, Key Shift_l}
     = ({KeyCode (Some 81) (Some ''q'') False, Key Ctrl_l, Key Shift_l}, Some 1)"
  by (simp add: kill_press_def key_in_def keys_add_def keys_superset_def KILL_COMBO_def
        key_ident_def)

lemma kill_release_delivered_q:
  "kill_release (KeyCode (Some 81) (Some ''q'') False)
     {Key Ctrl_l, KeyCode None (Some ''q'') False} = {Key Ctrl_l}"
  by (simp add: kill_release_def key_ident_def)

text \<open>
  The recorder's \<^verbatim>\<open>on_press\<close> adds every pressed key to the same set and checks nothing.
  When its listener has handled the presses of left Ctrl, left Shift and \<^verbatim>\<open>q\<close>, the set
  holds the whole combination, whether or not the kill listener has handled them yet.
\<close>

lemma recorder_completes_held:
  "keys_held (snd (run_listeners 0
       [(1, Press_event (Key Ctrl_l)), (2, Press_event (Key Shift_l)),
        (3, Press_event (KeyCode (Some 81) (Some ''q'') False))]
       (new_session, w\<lparr>keys_held := {}\<rparr>)))
     = {KeyCode (Some 81) (Some ''q'') False, Key Shift_l, Key Ctrl_l}"
  by (simp add: new_session_def on_press_def keys_add_def key_in_def key_ident_def)

text \<open>
  C9, as stated: whenever the held set contains the whole kill combination after a press was
  handled by the kill listener, the process was terminated with status 1. The handler looks
  at the held set only when the pressed key is itself in the combination, so the statement
  fails for a press of another key (here \<^verbatim>\<open>a\<close>) in a state where the set is already
  complete: the set still holds the whole combination and the process goes on.
\<close>

theorem C9_counterexample:
  "keys_superset
     (fst (kill_press (KeyCode (Some 65) (Some ''a'') False)
             {KeyCode (Some 81) (Some ''q'') False, Key Shift_l, Key Ctrl_l}))
     KILL_COMBO
   \<and> snd (kill_press (KeyCode (Some 65) (Some ''a'') False)
            {KeyCode (Some 81) (Some ''q'') False, Key Shift_l, Key Ctrl_l}) = None"
  by (simp add: kill_press_def key_in_def keys_superset_def KILL_COMBO_def key_ident_def)

text \<open>
  C9, amended: when a press of a key of the kill combination (left Ctrl, left Shift,
  \<^verbatim>\<open>q\<close>) is handled by the kill listener, the key is added to the held set, and if the
  held set then contains every key of the combination the handler terminates the process
  with exit status 1, whatever else the set contains; the process is terminated in no other
  case. A press of any other key is ignored: the held set stays as it was, it is not
  checked, and the process goes on.
\<close>

theorem C9_kill_press_exits:
  "(key_in key KILL_COMBO \<and> keys_superset (fst (kill_press key held)) KILL_COMBO
      \<longrightarrow> snd (kill_press key held) = Some 1)
   \<and> (key_in key KILL_COMBO \<longrightarrow> fst (kill_press key held) = keys_add key held)
   \<and> (snd (kill_press key held) \<noteq> None
      \<longrightarrow> snd (kill_press key held) = Some 1 \<and> key_in key KILL_COMBO
          \<and> keys_superset (fst (kill_press key held)) KILL_COMBO)
   \<and> (\<not> key_in key KILL_COMBO \<longrightarrow> kill_press key held = (held, None))"
  by (simp add: kill_press_def Let_def)

theorem C9_kill_press_exits_witness:
  "key_in (KeyCode (Some 81) (Some ''q'') False) KILL_COMBO
   \<and> keys_superset
       (fst (kill_press (KeyCode (Some 81) (Some ''q'') False)
               {Key Ctrl_l, Key Shift_l, Key (Other_special 0)}))
       KILL_COMBO
   \<and> kill_press (KeyCode (Some 81) (Some ''q'') False)
        {Key Ctrl_l, Key Shift_l, Key (Other_special 0)}
      = ({KeyCode (Some 81) (Some ''q'') False, Key Ctrl_l, Key Shift_l,
          Key (Other_special 0)}, Some 1)
   \<and> kill_press (KeyCode (Some 65) (Some ''a'') False) {Key Ctrl_l, Key Shift_l}
      = ({Key Ctrl_l, Key Shift_l}, None)"
proof -
  let ?q = "KeyCode (Some 81) (Some ''q'') False"
  let ?a = "KeyCode (Some 65) (Some ''a'') False"
  let ?held = "{Key Ctrl_l, Key Shift_l, Key (Other_special 0)}"
  have h1: "key_in ?q KILL_COMBO"
    by (simp add: key_in_def key_ident_def KILL_COMBO_def)
  have h2: "keys_superset (fst (kill_press ?q ?held)) KILL_COMBO"
    by (simp add: kill_press_def key_in_def keys_add_def keys_superset_def KILL_COMBO_def
          key_ident_def)
  have h3: "\<not> key_in ?a KILL_COMBO"
    by (simp add: key_in_def key_ident_def KILL_COMBO_def)
  have a: "keys_add ?q ?held = insert ?q ?held"
    by (simp add: keys_add_def key_in_def key_ident_def)
  have s: "snd (kill_press ?q ?held) = Some 1"
    using C9_kill_press_exits [of ?q ?held, THEN conjunct1] h1 h2 by blast
  have f: "fst (kill_press ?q ?held) = keys_add ?q ?held"
    using C9_kill_press_exits [of ?q ?held, THEN conjunct2, THEN conjunct1] h1 by blast
  have q: "kill_press ?q ?held = (insert ?q ?held, Some 1)"
    using s f a by (cases "kill_press ?q ?held") simp
  have n: "kill_press ?a {Key Ctrl_l, Key Shift_l} = ({Key Ctrl_l, Key Shift_l}, None)"
    using C9_kill_press_exits [of ?a "{Key Ctrl_l, Key Shift_l}",
            THEN conjunct2, THEN conjunct2, THEN conjunct2] h3
    by blast
  from q n h1 h2 show ?thesis by (simp only: simp_thms)
qed

section \<open>Properties of audio capture\<close>

lemma capture_loop_chunks_got:
  "Flag_off \<in> set obs \<Longrightarrow> capture_loop obs frames = Some (frames @ chunks_got obs)"
  by (induction obs frames rule: capture_loop.induct) (auto simp: chunks_got_def)

lemma capture_loop_returns_iff:
  "(\<exists>frames'. capture_loop obs frames = Some frames') \<longleftrightarrow> Flag_off \<in> set obs"
  by (induction obs frames rule: capture_loop.induct) auto

text \<open>
  C4: when the capture loop ends (the flag is observed false) and no chunk was received
  before that, \<^verbatim>\<open>record_until_toggle\<close> returns \<open>False\<close> and leaves every file as it was:
  nothing is written to the given path.
\<close>

theorem C4_no_chunks_no_file:
  assumes "Flag_off \<in> set obs" and "chunks_got obs = []"
  shows "record_until_toggle p sr_arg obs files = Some (False, files)"
  using assms by (simp add: record_until_toggle_def capture_loop_chunks_got)

theorem C4_no_chunks_no_file_witness:
  "Flag_off \<in> set [Queue_empty, Queue_empty, Flag_off, Got [1, 2]]
   \<and> chunks_got [Queue_empty, Queue_empty, Flag_off, Got [1, 2]] = []
   \<and> record_until_toggle ''/tmp/a.wav'' None [Queue_empty, Queue_empty, Flag_off, Got [1, 2]]
        Map.empty = Some (False, Map.empty)"
proof -
  have h1: "Flag_off \<in> set [Queue_empty, Queue_empty, Flag_off, Got [1, 2]]" by simp
  have h2: "chunks_got [Queue_empty, Queue_empty, Flag_off, Got [1, 2]] = []"
    by (simp add: chunks_got_def)
  from C4_no_chunks_no_file [OF h1 h2] h1 h2 show ?thesis by simp
qed

text \<open>
  C8: when the capture loop ends with at least one received chunk, the call made with the
  default sample rate writes to the given path a waveform of one channel at 16000 Hz whose
  samples are the received chunks concatenated in arrival order, and returns \<open>True\<close>.
\<close>

theorem C8_chunks_written:
  assumes "Flag_off \<in> set obs" and "chunks_got obs \<noteq> []"
  shows "record_until_toggle p None obs files =
           Some (True, files(p \<mapsto> \<lparr>rate = 16000, channels = 1,
                                  samples = concat (chunks_got obs)\<rparr>))"
  using assms by (simp add: record_until_toggle_def capture_loop_chunks_got)

theorem C8_chunks_written_witness:
  "Flag_off \<in> set [Got [1, 2], Queue_empty, Got [3], Flag_off, Got [4]]
   \<and> chunks_got [Got [1, 2], Queue_empty, Got [3], Flag_off, Got [4]] \<noteq> []
   \<and> record_until_toggle ''/tmp/a.wav'' None
        [Got [1, 2], Queue_empty, Got [3], Flag_off, Got [4]] Map.empty =
      Some (True, [''/tmp/a.wav'' \<mapsto> \<lparr>rate = 16000, channels = 1, samples = [1, 2, 3]\<rparr>])"
proof -
  have h1: "Flag_off \<in> set [Got [1, 2], Queue_empty, Got [3], Flag_off, Got [4]]" by simp
  have h2: "chunks_got [Got [1, 2], Queue_empty, Got [3], Flag_off, Got [4]] \<noteq> []"
    by (simp add: chunks_got_def)
  from C8_chunks_written [OF h1 h2] h1 h2 show ?thesis by (simp add: chunks_got_def)
qed

section \<open>Properties of macro playback\<close>

lemma clock_reads_append [simp]: "clock_reads (xs @ ys) = clock_reads xs @ clock_reads ys"
  by (simp add: clock_reads_def)

lemma clock_reads_Nil [simp]: "clock_reads [] = []"
  by (simp add: clock_reads_def)

lemma clock_reads_Cons [simp]:
  "clock_reads (e # tr) = (case e of TimeRead r \<Rightarrow> [r] | _ \<Rightarrow> []) @ clock_reads tr"
  by (simp add: clock_reads_def)

lemma injected_append [simp]: "injected (xs @ ys) = injected xs @ injected ys"
  by (simp add: injected_def)

lemma injected_timing: "\<forall>e\<in>set pre. is_timing e \<Longrightarrow> injected pre = []"
  by (induction pre) (auto simp: injected_def)

lemma step_action_no_timing:
  "step_action s = Inr acts \<Longrightarrow> clock_reads acts = [] \<and> injected acts = acts"
  by (auto simp: step_action_def clock_reads_def injected_def is_timing_def
           split: if_splits list.splits)

lemma actions_of_Inr: "step_action s = Inr acts \<Longrightarrow> actions_of s = acts"
  by (simp add: actions_of_def)

lemma wait_until_trace:
  "wait_until t0 offset w = Some w' \<Longrightarrow>
     \<exists>pre r. trace w' = trace w @ pre @ [TimeRead r] \<and> offset \<le> r - t0
        \<and> (\<forall>e\<in>set pre. is_timing e)
        \<and> macro w' = macro w \<and> clipboard w' = clipboard w \<and> keys_held w' = keys_held w"
proof (induction t0 offset w rule: wait_until.induct)
  case (1 t0 offset w)
  from "1.prems" obtain now later where c: "clock w = now # later"
    by (auto simp: wait_until.simps [of t0 offset w] time_time_def split: list.splits)
  let ?w1 = "emit [TimeRead now] (w\<lparr>clock := later\<rparr>)"
  have tt: "time_time w = Some (now, ?w1)" using c by (simp add: time_time_def)
  show ?case
  proof (cases "now - t0 < offset")
    case True
    with "1.prems" tt have rec: "wait_until t0 offset (emit [Sleep 0.002] ?w1) = Some w'"
      by (simp add: wait_until.simps [of t0 offset w])
    from "1.IH" [OF tt refl True rec] obtain pre r where
      p: "trace w' = trace (emit [Sleep 0.002] ?w1) @ pre @ [TimeRead r]" "offset \<le> r - t0"
         "\<forall>e\<in>set pre. is_timing e" "macro w' = macro (emit [Sleep 0.002] ?w1)"
         "clipboard w' = clipboard (emit [Sleep 0.002] ?w1)"
         "keys_held w' = keys_held (emit [Sleep 0.002] ?w1)"
      by blast
    show ?thesis
      apply (rule exI [of _ "TimeRead now # Sleep 0.002 # pre"], rule exI [of _ r])
      using p by (simp add: emit_def is_timing_def)
  next
    case False
    with "1.prems" tt have "w' = ?w1"
      by (simp add: wait_until.simps [of t0 offset w])
    then show ?thesis
      apply -
      apply (rule exI [of _ "[]"], rule exI [of _ now])
      using False by (simp add: emit_def)
  qed
qed

lemma play_steps_released:
  "play_steps t0 steps w = Some (Inr w') \<Longrightarrow>
     \<exists>segs. trace w' = trace w @ concat segs \<and> list_all2 (released t0) steps segs
        \<and> macro w' = macro w \<and> clipboard w' = clipboard w"
proof (induction steps arbitrary: w)
  case Nil
  then show ?case by simp
next
  case (Cons s rest)
  from Cons.prems obtain w1 acts where
    wt: "wait_until t0 (step_t s) w = Some w1" and
    sa: "step_action s = Inr acts" and
    r: "play_steps t0 rest (emit acts w1) = Some (Inr w')"
    by (auto split: option.splits sum.splits)
  from wait_until_trace [OF wt] obtain pre r where
    p: "trace w1 = trace w @ pre @ [TimeRead r]" "step_t s \<le> r - t0"
       "\<forall>e\<in>set pre. is_timing e" "macro w1 = macro w" "clipboard w1 = clipboard w"
    by blast
  from Cons.IH [OF r] obtain segs where
    q: "trace w' = trace (emit acts w1) @ concat segs" "list_all2 (released t0) rest segs"
       "macro w' = macro (emit acts w1)" "clipboard w' = clipboard (emit acts w1)"
    by blast
  have rel: "released t0 s (pre @ TimeRead r # acts)"
    unfolding released_def using p sa by (auto simp: actions_of_Inr)
  show ?case
    apply (rule exI [of _ "(pre @ TimeRead r # acts) # segs"])
    using p q rel by (simp add: emit_def)
qed

lemma play_steps_last_read:
  "steps \<noteq> [] \<Longrightarrow> play_steps t0 steps w = Some (Inr w') \<Longrightarrow>
     \<exists>tr. trace w' = trace w @ tr \<and> clock_reads tr \<noteq> []
        \<and> step_t (last steps) \<le> last (clock_reads tr) - t0"
proof (induction steps arbitrary: w)
  case Nil
  then show ?case by simp
next
  case (Cons s rest)
  from Cons.prems obtain w1 acts where
    wt: "wait_until t0 (step_t s) w = Some w1" and
    sa: "step_action s = Inr acts" and
    r: "play_steps t0 rest (emit acts w1) = Some (Inr w')"
    by (auto split: option.splits sum.splits)
  from wait_until_trace [OF wt] obtain pre r where
    p: "trace w1 = trace w @ pre @ [TimeRead r]" "step_t s \<le> r - t0"
    by blast
  have na: "clock_reads acts = []" using step_action_no_timing [OF sa] by simp
  show ?case
  proof (cases "rest = []")
    case True
    with r have "w' = emit acts w1" by simp
    then show ?thesis
      apply -
      apply (rule exI [of _ "pre @ [TimeRead r] @ acts"])
      using p na True by (simp add: emit_def)
  next
    case False
    from Cons.IH [OF False r] obtain tr where
      q: "trace w' = trace (emit acts w1) @ tr" "clock_reads tr \<noteq> []"
         "step_t (last rest) \<le> last (clock_reads tr) - t0"
      by blast
    show ?thesis
      apply (rule exI [of _ "pre @ [TimeRead r] @ acts @ tr"])
      using p q na False by (simp add: emit_def)
  qed
qed

lemma play_steps_injected:
  "play_steps t0 steps w = Some (Inr w') \<Longrightarrow>
     \<exists>tr. trace w' = trace w @ tr \<and> injected tr = concat (map actions_of steps)
        \<and> clipboard w' = clipboard w"
proof -
  assume a: "play_steps t0 steps w = Some (Inr w')"
  from play_steps_released [OF a] obtain segs where
    s: "trace w' = trace w @ concat segs" "list_all2 (released t0) steps segs"
       "clipboard w' = clipboard w"
    by blast
  from s(2) have "injected (concat segs) = concat (map actions_of steps)"
  proof (induction steps segs rule: list_all2_induct)
    case Nil
    then show ?case by (simp add: injected_def)
  next
    case (Cons st sts seg segs)
    from Cons(1) obtain pre r where
      e: "seg = pre @ TimeRead r # actions_of st" "\<forall>e\<in>set pre. is_timing e"
      unfolding released_def by blast
    have "injected (actions_of st) = actions_of st"
      using step_action_no_timing [of st] by (cases "step_action st") (auto simp: actions_of_def injected_def)
    with e Cons(3) show ?case
      by (simp add: injected_timing) (simp add: injected_def is_timing_def)
  qed
  with s show ?thesis by blast
qed

lemma play_macro_unfold:
  assumes "macro w \<noteq> []" and "play_macro text w = Some (Inr w')"
  obtains t0 later where "clock w = t0 # later"
    and "play_steps t0 (macro w)
           (w\<lparr>clipboard := text, clock := later,
              trace := trace w @ [ClipCopy text, TimeRead t0]\<rparr>) = Some (Inr w')"
  using assms
  by (auto simp: play_macro_def time_time_def emit_def Let_def split: list.splits)

text \<open>
  A record of the shape the recorder appends is replayed by the mouse branch or by the
  hotkey branch, and a macro of such records makes the player raise nothing.
\<close>

lemma recorded_shape_action:
  assumes "recorded_shape st"
  shows "(\<exists>x y. step_action st = Inr [MoveTo x y, Click])
         \<or> step_action st = Inr [Hotkey [PStr ''ctrl'', PStr ''v'']]"
proof -
  from assms consider
    (mouse) "step_type st = ''mouse''" "length (step_data st) = 3"
    | (hotkey) "step_type st = ''hotkey''" "step_data st = [PStr ''ctrl'', PStr ''v'']"
    unfolding recorded_shape_def by blast
  then show ?thesis
  proof cases
    case mouse
    from mouse(2) obtain x y b where "step_data st = [x, y, b]"
      by (auto simp: length_Suc_conv numeral_3_eq_3)
    with mouse(1) show ?thesis by (simp add: step_action_def)
  next
    case hotkey
    then show ?thesis by (simp add: step_action_def)
  qed
qed

lemma play_steps_no_error:
  "\<forall>st\<in>set steps. recorded_shape st \<Longrightarrow> play_steps t0 steps w \<noteq> Some (Inl ew)"
proof (induction steps arbitrary: w)
  case Nil
  then show ?case by simp
next
  case (Cons s rest)
  from Cons.prems have "recorded_shape s" by simp
  from recorded_shape_action [OF this] obtain acts where "step_action s = Inr acts" by blast
  with Cons show ?case by (auto split: option.splits)
qed

lemma play_macro_no_error:
  "\<forall>st\<in>set (macro w). recorded_shape st \<Longrightarrow> play_macro text w \<noteq> Some (Inl ew)"
  by (auto simp: play_macro_def time_time_def emit_def play_steps_no_error
           split: list.splits)

text \<open>
  Playback returns when the clock gets far enough: if, after the first reading \<open>t0\<close>, the
  readings end with at least as many readings as there are records, each of them late enough
  for every record, and no record makes the unpacking fail.
\<close>

lemma wait_until_returns:
  assumes "clock w = pre @ post" and "post \<noteq> []" and "\<forall>r\<in>set post. offset \<le> r - t0"
  shows "\<exists>w' pre'. wait_until t0 offset w = Some w' \<and> clock w' = pre' @ tl post"
  using assms
proof (induction pre arbitrary: w)
  case Nil
  then obtain r rest where p: "post = r # rest" by (cases post) auto
  with Nil have "\<not> r - t0 < offset" by auto
  with Nil p show ?case
    by (simp add: wait_until.simps [of t0 offset w] time_time_def emit_def)
next
  case (Cons a pre)
  let ?w1 = "emit [TimeRead a] (w\<lparr>clock := pre @ post\<rparr>)"
  have tt: "time_time w = Some (a, ?w1)" using Cons.prems by (simp add: time_time_def)
  show ?case
  proof (cases "a - t0 < offset")
    case True
    have "clock (emit [Sleep 0.002] ?w1) = pre @ post" by (simp add: emit_def)
    from Cons.IH [OF this Cons.prems(2,3)] True tt show ?thesis
      by (simp add: wait_until.simps [of t0 offset w])
  next
    case False
    have "clock ?w1 = (pre @ [hd post]) @ tl post" using Cons.prems(2) by (simp add: emit_def)
    with False tt show ?thesis
      by (simp only: wait_until.simps [of t0 offset w]) auto
  qed
qed

lemma play_steps_returns:
  assumes "clock w = pre @ post" and "length steps \<le> length post"
    and "\<forall>r\<in>set post. \<forall>s\<in>set steps. step_t s \<le> r - t0"
    and "\<forall>s\<in>set steps. \<exists>acts. step_action s = Inr acts"
  shows "\<exists>w'. play_steps t0 steps w = Some (Inr w')"
  using assms
proof (induction steps arbitrary: w pre post)
  case Nil
  then show ?case by simp
next
  case (Cons s rest)
  from Cons.prems(2) have ne: "post \<noteq> []" by auto
  from Cons.prems(3) have late: "\<forall>r\<in>set post. step_t s \<le> r - t0" by simp
  from wait_until_returns [OF Cons.prems(1) ne late] obtain w1 pre' where
    w1: "wait_until t0 (step_t s) w = Some w1" "clock w1 = pre' @ tl post"
    by blast
  from Cons.prems(4) obtain acts where sa: "step_action s = Inr acts" by auto
  have c: "clock (emit acts w1) = pre' @ tl post" using w1(2) by (simp add: emit_def)
  have l: "length rest \<le> length (tl post)" using Cons.prems(2) by simp
  have a: "\<forall>r\<in>set (tl post). \<forall>s\<in>set rest. step_t s \<le> r - t0"
    using Cons.prems(3) ne by (auto dest: list.set_sel(2))
  have b: "\<forall>s\<in>set rest. \<exists>acts. step_action s = Inr acts" using Cons.prems(4) by simp
  from Cons.IH [OF c l a b] w1(1) sa show ?case by simp
qed

lemma play_macro_returns:
  assumes "clock w = t0 # pre @ post" and "length (macro w) \<le> length post"
    and "\<forall>r\<in>set post. \<forall>s\<in>set (macro w). step_t s \<le> r - t0"
    and "\<forall>s\<in>set (macro w). \<exists>acts. step_action s = Inr acts"
  shows "\<exists>w'. play_macro text w = Some (Inr w')"
proof (cases "macro w = []")
  case True
  then show ?thesis by (simp add: play_macro_def)
next
  case False
  let ?w2 = "emit [TimeRead t0] (emit [ClipCopy text] (w\<lparr>clipboard := text\<rparr>)\<lparr>clock := pre @ post\<rparr>)"
  have c: "clock ?w2 = pre @ post" by (simp add: emit_def)
  have m: "macro ?w2 = macro w" by (simp add: emit_def)
  from play_steps_returns [OF c assms(2,3,4)] obtain w' where
    "play_steps t0 (macro w) ?w2 = Some (Inr w')" by blast
  with False assms(1) m show ?thesis
    by (simp add: play_macro_def time_time_def emit_def)
qed

lemma play_macro_returns_recorded:
  assumes "\<forall>st\<in>set (macro w). recorded_shape st" and "clock_reaches w"
  shows "\<exists>w'. play_macro text w = Some (Inr w')"
proof -
  from assms(2) obtain t0 pre post where
    c: "clock w = t0 # pre @ post" "length (macro w) \<le> length post"
       "\<forall>r\<in>set post. \<forall>s\<in>set (macro w). step_t s \<le> r - t0"
    unfolding clock_reaches_def by blast
  have "\<forall>s\<in>set (macro w). \<exists>acts. step_action s = Inr acts"
    using assms(1) recorded_shape_action by blast
  from play_macro_returns [OF c this] show ?thesis .
qed

lemma demo_run: "play_macro ''hi'' demo_world = Some (Inr demo_played)"
  by (simp add: play_macro_def demo_world_def demo_played_def time_time_def emit_def
        wait_until.simps step_action_def)

lemma demo_clock_reaches: "clock_reaches demo_world"
  unfolding clock_reaches_def
  apply (rule exI [of _ 100], rule exI [of _ "[100.3, 100.6]"], rule exI [of _ "[101.5, 102]"])
  apply (simp add: demo_world_def)
  done

text \<open>
  C2: with an empty macro list \<^verbatim>\<open>play_macro\<close> returns at once and the world is what it
  was, for any text: the clipboard is not written, nothing is added to the trace (no
  injected input, no sleep) and no reading of the clock is taken.
\<close>

theorem C2_empty_macro_noop:
  assumes "macro w = []"
  shows "play_macro text w = Some (Inr w)"
  using assms by (simp add: play_macro_def)

theorem C2_empty_macro_noop_witness:
  "macro \<lparr>macro = [], keys_held = {}, clipboard = ''old'', clock = [3, 4], trace = [Click]\<rparr> = []
   \<and> play_macro ''hi''
        \<lparr>macro = [], keys_held = {}, clipboard = ''old'', clock = [3, 4], trace = [Click]\<rparr>
      = Some (Inr \<lparr>macro = [], keys_held = {}, clipboard = ''old'', clock = [3, 4],
                   trace = [Click]\<rparr>)"
proof -
  have h: "macro \<lparr>macro = [], keys_held = {}, clipboard = ''old'', clock = [3, 4],
                  trace = [Click]\<rparr> = []"
    by simp
  from C2_empty_macro_noop [OF h, of "''hi''"] h show ?thesis by simp
qed

text \<open>
  C1: take a non-empty macro. Whenever \<^verbatim>\<open>play_macro\<close> returns, what it added to the
  trace is the clipboard write, the reading \<open>t0\<close> of the clock, and then one stretch for each
  record in turn, in which the record's actions come only after a reading of the clock at
  which the time elapsed since \<open>t0\<close> has reached the record's offset; hence the time between
  the first and the last reading of the clock is at least the offset of the last record.
  And it does return when the records have the shape the recorder gives them and the clock
  gets far enough.
\<close>

theorem C1_playback_waits:
  assumes "macro w \<noteq> []"
  shows "(\<forall>w'. play_macro text w = Some (Inr w') \<longrightarrow>
            (\<exists>t0 segs. trace w' = trace w @ [ClipCopy text, TimeRead t0] @ concat segs
                \<and> list_all2 (released t0) (macro w) segs)
            \<and> step_t (last (macro w)) \<le> playback_duration w w')
         \<and> ((\<forall>st\<in>set (macro w). recorded_shape st) \<and> clock_reaches w \<longrightarrow>
              (\<exists>w'. play_macro text w = Some (Inr w')))"
proof (intro conjI allI impI)
  fix w'
  assume r: "play_macro text w = Some (Inr w')"
  from assms r obtain t0 later where
    ps: "play_steps t0 (macro w)
           (w\<lparr>clipboard := text, clock := later,
              trace := trace w @ [ClipCopy text, TimeRead t0]\<rparr>) = Some (Inr w')"
    by (rule play_macro_unfold)
  from play_steps_released [OF ps] obtain segs where
    s: "trace w' = (trace w @ [ClipCopy text, TimeRead t0]) @ concat segs"
       "list_all2 (released t0) (macro w) segs"
    by auto
  then show "\<exists>t0 segs. trace w' = trace w @ [ClipCopy text, TimeRead t0] @ concat segs
                \<and> list_all2 (released t0) (macro w) segs"
    by auto
  from play_steps_last_read [OF assms ps] obtain tr where
    t: "trace w' = (trace w @ [ClipCopy text, TimeRead t0]) @ tr" "clock_reads tr \<noteq> []"
       "step_t (last (macro w)) \<le> last (clock_reads tr) - t0"
    by auto
  have "drop (length (trace w)) (trace w') = [ClipCopy text, TimeRead t0] @ tr"
    using t(1) by simp
  then have "playback_duration w w' = last (clock_reads tr) - t0"
    using t(2) by (simp add: playback_duration_def)
  with t(3) show "step_t (last (macro w)) \<le> playback_duration w w'" by simp
next
  assume "(\<forall>st\<in>set (macro w). recorded_shape st) \<and> clock_reaches w"
  then show "\<exists>w'. play_macro text w = Some (Inr w')"
    by (simp add: play_macro_returns_recorded)
qed

theorem C1_playback_waits_witness:
  "macro demo_world \<noteq> [] \<and> clock_reaches demo_world
   \<and> recorded_shape (macro demo_world ! 0) \<and> recorded_shape (macro demo_world ! 1)
   \<and> play_macro ''hi'' demo_world = Some (Inr demo_played)
   \<and> step_t (last (macro demo_world)) = 1.25 \<and> playback_duration demo_world demo_played = 1.5
   \<and> step_t (last (macro demo_world)) \<le> playback_duration demo_world demo_played"
proof -
  have h: "macro demo_world \<noteq> []" by (simp add: demo_world_def)
  have d: "playback_duration demo_world demo_played = 1.5"
    by (simp add: playback_duration_def demo_world_def demo_played_def)
  have l: "step_t (last (macro demo_world)) = 1.25" by (simp add: demo_world_def)
  have s: "recorded_shape (macro demo_world ! 0)" "recorded_shape (macro demo_world ! 1)"
    by (simp_all add: demo_world_def recorded_shape_def)
  from C1_playback_waits [OF h, of "''hi''"] h demo_run demo_clock_reaches d l s show ?thesis by simp
qed

text \<open>
  C7, as stated, is about every call. A call with an empty macro list returns before the
  clipboard is written: afterwards the clipboard still holds what it held and the trace has
  no clipboard write.
\<close>

theorem C7_counterexample:
  "play_macro ''hi''
     \<lparr>macro = [], keys_held = {}, clipboard = ''old'', clock = [0, 1], trace = []\<rparr>
   = Some (Inr \<lparr>macro = [], keys_held = {}, clipboard = ''old'', clock = [0, 1], trace = []\<rparr>)
   \<and> clipboard \<lparr>macro = [], keys_held = {}, clipboard = ''old'', clock = [0, 1], trace = []\<rparr>
       \<noteq> ''hi''"
  by (simp add: play_macro_def)

text \<open>
  C7, amended: take a call of \<^verbatim>\<open>play_macro\<close> with a text and a non-empty macro list.
  Whenever it returns, the clipboard holds the text, the clipboard write is the first thing
  the call did, and the input injected after it is the actions of the records in list order.
  And it does return when the records have the shape the recorder gives them and the clock
  gets far enough.
\<close>

theorem C7_clipboard_then_replay:
  assumes "macro w \<noteq> []"
  shows "(\<forall>w'. play_macro text w = Some (Inr w') \<longrightarrow>
            clipboard w' = text
            \<and> (\<exists>tr. trace w' = trace w @ ClipCopy text # tr
                  \<and> injected tr = concat (map actions_of (macro w))))
         \<and> ((\<forall>st\<in>set (macro w). recorded_shape st) \<and> clock_reaches w \<longrightarrow>
              (\<exists>w'. play_macro text w = Some (Inr w')))"
proof (intro conjI allI impI)
  fix w'
  assume r: "play_macro text w = Some (Inr w')"
  from assms r obtain t0 later where
    ps: "play_steps t0 (macro w)
           (w\<lparr>clipboard := text, clock := later,
              trace := trace w @ [ClipCopy text, TimeRead t0]\<rparr>) = Some (Inr w')"
    by (rule play_macro_unfold)
  from play_steps_injected [OF ps] obtain tr where
    t: "trace w' = (trace w @ [ClipCopy text, TimeRead t0]) @ tr"
       "injected tr = concat (map actions_of (macro w))" "clipboard w' = text"
    by auto
  from t(3) show "clipboard w' = text" .
  have "injected (TimeRead t0 # tr) = concat (map actions_of (macro w))"
    using t(2) by (simp add: injected_def is_timing_def)
  with t(1) show "\<exists>tr. trace w' = trace w @ ClipCopy text # tr
                  \<and> injected tr = concat (map actions_of (macro w))"
    by auto
next
  assume "(\<forall>st\<in>set (macro w). recorded_shape st) \<and> clock_reaches w"
  then show "\<exists>w'. play_macro text w = Some (Inr w')"
    by (simp add: play_macro_returns_recorded)
qed

theorem C7_clipboard_then_replay_witness:
  "macro demo_world \<noteq> [] \<and> clock_reaches demo_world
   \<and> recorded_shape (macro demo_world ! 0) \<and> recorded_shape (macro demo_world ! 1)
   \<and> play_macro ''hi'' demo_world = Some (Inr demo_played)
   \<and> clipboard demo_played = ''hi''
   \<and> trace demo_played = trace demo_world @ ClipCopy ''hi'' # tl (trace demo_played)
   \<and> injected (tl (trace demo_played)) = concat (map actions_of (macro demo_world))
   \<and> concat (map actions_of (macro demo_world))
       = [MoveTo (PInt 10) (PInt 20), Click, Hotkey [PStr ''ctrl'', PStr ''v'']]"
proof -
  have h: "macro demo_world \<noteq> []" by (simp add: demo_world_def)
  have a: "concat (map actions_of (macro demo_world))
       = [MoveTo (PInt 10) (PInt 20), Click, Hotkey [PStr ''ctrl'', PStr ''v'']]"
    by (simp add: demo_world_def actions_of_def step_action_def)
  have t: "trace demo_world = []" by (simp add: demo_world_def)
  have s: "recorded_shape (macro demo_world ! 0)" "recorded_shape (macro demo_world ! 1)"
    by (simp_all add: demo_world_def recorded_shape_def)
  from C7_clipboard_then_replay [OF h, of "''hi''"] h demo_run demo_clock_reaches a t s
  show ?thesis by auto
qed

section \<open>Properties of macro recording\<close>

lemma record_macro_begin_forgets:
  "record_macro_begin (w\<lparr>macro := old\<rparr>) = record_macro_begin (w\<lparr>macro := []\<rparr>)"
  by (simp add: record_macro_begin_def emit_def)

lemma demo_record: "record_macro 10 demo_events stale_world = Some demo_recorded"
  by (simp add: record_macro_def record_macro_begin_def new_session_def demo_events_def
        stale_world_def demo_recorded_def on_click_def on_press_def on_release_def
        V_VK_def emit_def keys_add_def key_in_def key_ident_def)

lemma record_macro_macro:
  "record_macro start evs w = Some w' \<Longrightarrow>
   macro w' = macro (snd (run_listeners start evs (new_session, record_macro_begin w)))"
  by (auto simp: record_macro_def emit_def split: prod.splits if_splits)

text \<open>
  The listeners look at the macro list only to append to it: from two worlds with the same
  macro list and the same held keys they reach the same list.
\<close>

lemma handle_agree:
  assumes "macro w = macro w0" and "keys_held w = keys_held w0"
  shows "fst (handle start e (s, w)) = fst (handle start e (s, w0))
         \<and> macro (snd (handle start e (s, w))) = macro (snd (handle start e (s, w0)))
         \<and> keys_held (snd (handle start e (s, w))) = keys_held (snd (handle start e (s, w0)))"
proof -
  obtain now ev where e: "e = (now, ev)" by (cases e)
  show ?thesis
    using assms unfolding e
    by (cases ev) (auto simp: on_click_def on_press_def on_release_def Let_def)
qed

lemma run_listeners_agree:
  "macro w = macro w0 \<Longrightarrow> keys_held w = keys_held w0 \<Longrightarrow>
   fst (run_listeners start evs (s, w)) = fst (run_listeners start evs (s, w0))
   \<and> macro (snd (run_listeners start evs (s, w)))
       = macro (snd (run_listeners start evs (s, w0)))"
proof (induction evs arbitrary: s w w0)
  case Nil
  then show ?case by simp
next
  case (Cons e evs)
  obtain s1 w1 where h1: "handle start e (s, w) = (s1, w1)" by (cases "handle start e (s, w)")
  obtain s2 w2 where h2: "handle start e (s, w0) = (s2, w2)" by (cases "handle start e (s, w0)")
  from handle_agree [OF Cons.prems, of start e s] h1 h2
  have "s1 = s2" "macro w1 = macro w2" "keys_held w1 = keys_held w2" by simp_all
  with Cons.IH [of w1 w2 s1] h1 h2 show ?case by simp
qed

lemma run_listeners_session_records:
  "macro (snd (run_listeners start evs (new_session, record_macro_begin w)))
     = session_records start evs (keys_held w)"
  unfolding session_records_def
  by (rule run_listeners_agree [THEN conjunct2])
     (simp_all add: record_macro_begin_def emit_def blank_world_def)

text \<open>
  The stop key stops the keyboard listener and sets the flag; with the flag set the next
  click stops the mouse listener; a stopped listener stays stopped.
\<close>

lemma run_listeners_append:
  "run_listeners start (xs @ ys) sw = run_listeners start ys (run_listeners start xs sw)"
  by (induction xs arbitrary: sw) simp_all

lemma handle_kl_inv:
  assumes "\<not> kl_running (fst sw) \<longrightarrow> stop_record (fst sw)"
  shows "\<not> kl_running (fst (handle start e sw)) \<longrightarrow> stop_record (fst (handle start e sw))"
proof -
  obtain now ev where e: "e = (now, ev)" by (cases e)
  obtain s w where sw: "sw = (s, w)" by (cases sw)
  show ?thesis
    using assms unfolding e sw
    by (cases ev) (auto simp: on_click_def on_press_def on_release_def Let_def)
qed

lemma handle_stopped:
  assumes "stop_record (fst sw) \<and> \<not> kl_running (fst sw)"
  shows "stop_record (fst (handle start e sw)) \<and> \<not> kl_running (fst (handle start e sw))
         \<and> (\<not> ml_running (fst sw) \<longrightarrow> \<not> ml_running (fst (handle start e sw)))"
proof -
  obtain now ev where e: "e = (now, ev)" by (cases e)
  obtain s w where sw: "sw = (s, w)" by (cases sw)
  show ?thesis
    using assms unfolding e sw
    by (cases ev) (auto simp: on_click_def on_press_def on_release_def Let_def)
qed

lemma run_listeners_kl_inv:
  "\<not> kl_running (fst sw) \<longrightarrow> stop_record (fst sw) \<Longrightarrow>
   \<not> kl_running (fst (run_listeners start evs sw))
     \<longrightarrow> stop_record (fst (run_listeners start evs sw))"
proof (induction evs arbitrary: sw)
  case Nil
  then show ?case by simp
next
  case (Cons e evs)
  from Cons.IH [OF handle_kl_inv [OF Cons.prems]] show ?case by simp
qed

lemma run_listeners_stopped:
  "stop_record (fst sw) \<and> \<not> kl_running (fst sw) \<Longrightarrow>
   stop_record (fst (run_listeners start evs sw))
   \<and> \<not> kl_running (fst (run_listeners start evs sw))
   \<and> (\<not> ml_running (fst sw) \<longrightarrow> \<not> ml_running (fst (run_listeners start evs sw)))"
proof (induction evs arbitrary: sw)
  case Nil
  then show ?case by simp
next
  case (Cons e evs)
  from handle_stopped [OF Cons.prems, of start e]
  have h: "stop_record (fst (handle start e sw)) \<and> \<not> kl_running (fst (handle start e sw))"
    and m: "\<not> ml_running (fst sw) \<longrightarrow> \<not> ml_running (fst (handle start e sw))"
    by simp_all
  from Cons.IH [OF h] m show ?case by simp
qed

lemma handle_stop_key:
  assumes "\<not> kl_running (fst sw) \<longrightarrow> stop_record (fst sw)"
  shows "stop_record (fst (handle start (t1, Press_event (KeyCode v (Some ''s'') d)) sw))
         \<and> \<not> kl_running (fst (handle start (t1, Press_event (KeyCode v (Some ''s'') d)) sw))"
proof -
  obtain s w where sw: "sw = (s, w)" by (cases sw)
  show ?thesis using assms unfolding sw by (auto simp: on_press_def)
qed

lemma handle_click_stops:
  assumes "stop_record (fst sw) \<and> \<not> kl_running (fst sw)"
  shows "stop_record (fst (handle start (t2, Click_event x y b p) sw))
         \<and> \<not> kl_running (fst (handle start (t2, Click_event x y b p) sw))
         \<and> \<not> ml_running (fst (handle start (t2, Click_event x y b p) sw))"
proof -
  obtain s w where sw: "sw = (s, w)" by (cases sw)
  show ?thesis using assms unfolding sw by (auto simp: on_click_def)
qed

lemma run_listeners_stop_then_click:
  assumes "stop_then_click evs" and "\<not> kl_running (fst sw) \<longrightarrow> stop_record (fst sw)"
  shows "\<not> ml_running (fst (run_listeners start evs sw))
         \<and> \<not> kl_running (fst (run_listeners start evs sw))"
proof -
  from assms(1) obtain pre t1 v d mid t2 x y b p post where
    evs: "evs = pre @ (t1, Press_event (KeyCode v (Some ''s'') d)) # mid
                    @ (t2, Click_event x y b p) # post"
    unfolding stop_then_click_def by blast
  let ?a = "run_listeners start pre sw"
  let ?b = "handle start (t1, Press_event (KeyCode v (Some ''s'') d)) ?a"
  let ?c = "run_listeners start mid ?b"
  let ?d = "handle start (t2, Click_event x y b p) ?c"
  have a: "\<not> kl_running (fst ?a) \<longrightarrow> stop_record (fst ?a)"
    by (rule run_listeners_kl_inv [OF assms(2)])
  have b: "stop_record (fst ?b) \<and> \<not> kl_running (fst ?b)"
    by (rule handle_stop_key [OF a])
  have c: "stop_record (fst ?c) \<and> \<not> kl_running (fst ?c)"
    using run_listeners_stopped [OF b, of start mid] by simp
  have d: "stop_record (fst ?d) \<and> \<not> kl_running (fst ?d) \<and> \<not> ml_running (fst ?d)"
    by (rule handle_click_stops [OF c])
  then have d1: "stop_record (fst ?d) \<and> \<not> kl_running (fst ?d)" and d2: "\<not> ml_running (fst ?d)"
    by simp_all
  have "run_listeners start evs sw = run_listeners start post ?d"
    unfolding evs by (simp add: run_listeners_append)
  with run_listeners_stopped [OF d1, of start post] d2 show ?thesis by simp
qed

lemma record_macro_returns:
  assumes "stop_then_click evs"
  shows "\<exists>w'. record_macro start evs w = Some w'"
proof -
  have "\<not> kl_running (fst (new_session, record_macro_begin w))
          \<longrightarrow> stop_record (fst (new_session, record_macro_begin w))"
    by (simp add: new_session_def)
  from run_listeners_stop_then_click [OF assms this, of start]
  show ?thesis
    by (auto simp: record_macro_def split: prod.splits)
qed

lemma demo_stop_then_click: "stop_then_click demo_events"
  unfolding stop_then_click_def
  apply (rule exI [of _ "take 6 demo_events"])
  apply (rule exI [of _ 12], rule exI [of _ "Some 83"], rule exI [of _ False])
  apply (rule exI [of _ "[]"])
  apply (rule exI [of _ "12.5"], rule exI [of _ 0], rule exI [of _ 0])
  apply (rule exI [of _ Button_left], rule exI [of _ True], rule exI [of _ "[]"])
  apply (simp add: demo_events_def)
  done

text \<open>
  C6: the first statement of \<^verbatim>\<open>record_macro\<close> empties the macro list, so the listeners
  start from an empty list. After any events the list holds exactly the records that these
  events make the listeners append to an empty list, and that is the list in the world that
  \<^verbatim>\<open>record_macro\<close> returns: no record of an earlier session is left, and the result is the
  same whatever records \<open>old\<close> an earlier session left. The call returns once the stop key
  and then a click have arrived.
\<close>

theorem C6_record_macro_clears:
  "macro (record_macro_begin w) = []
   \<and> macro (snd (run_listeners start evs (new_session, record_macro_begin w)))
       = session_records start evs (keys_held w)
   \<and> (\<forall>w'. record_macro start evs w = Some w'
          \<longrightarrow> macro w' = session_records start evs (keys_held w))
   \<and> record_macro start evs (w\<lparr>macro := old\<rparr>) = record_macro start evs (w\<lparr>macro := []\<rparr>)
   \<and> (stop_then_click evs \<longrightarrow> (\<exists>w'. record_macro start evs w = Some w'))"
proof (intro conjI allI impI)
  show "macro (record_macro_begin w) = []"
    by (simp add: record_macro_begin_def emit_def)
  show "macro (snd (run_listeners start evs (new_session, record_macro_begin w)))
          = session_records start evs (keys_held w)"
    by (rule run_listeners_session_records)
  show "record_macro start evs (w\<lparr>macro := old\<rparr>) = record_macro start evs (w\<lparr>macro := []\<rparr>)"
    by (simp add: record_macro_def record_macro_begin_forgets [where w = w and old = old])
next
  fix w'
  assume "record_macro start evs w = Some w'"
  then show "macro w' = session_records start evs (keys_held w)"
    by (simp add: record_macro_macro run_listeners_session_records)
next
  assume "stop_then_click evs"
  then show "\<exists>w'. record_macro start evs w = Some w'"
    by (rule record_macro_returns)
qed

theorem C6_record_macro_clears_witness:
  "macro stale_world = [\<lparr>step_t = 7, step_type = ''mouse'',
                          step_data = [PInt 1, PInt 2, PButton Button_right]\<rparr>]
   \<and> stop_then_click demo_events
   \<and> record_macro 10 demo_events stale_world = Some demo_recorded
   \<and> macro demo_recorded = session_records 10 demo_events {}
   \<and> session_records 10 demo_events {}
       = [\<lparr>step_t = 0.5, step_type = ''mouse'',
            step_data = [PInt 10, PInt 20, PButton Button_left]\<rparr>,
          \<lparr>step_t = 1.25, step_type = ''hotkey'',
            step_data = [PStr ''ctrl'', PStr ''v'']\<rparr>]"
proof -
  have m: "macro stale_world = [\<lparr>step_t = 7, step_type = ''mouse'',
                          step_data = [PInt 1, PInt 2, PButton Button_right]\<rparr>]"
    by (simp add: stale_world_def)
  have k: "keys_held stale_world = {}" by (simp add: stale_world_def)
  have t: "macro demo_recorded = session_records 10 demo_events (keys_held stale_world)"
    using C6_record_macro_clears [of stale_world 10 demo_events "[]", THEN conjunct2, THEN conjunct2,
                THEN conjunct1] demo_record
    by blast
  have d: "macro demo_recorded
       = [\<lparr>step_t = 0.5, step_type = ''mouse'',
            step_data = [PInt 10, PInt 20, PButton Button_left]\<rparr>,
          \<lparr>step_t = 1.25, step_type = ''hotkey'',
            step_data = [PStr ''ctrl'', PStr ''v'']\<rparr>]"
    by (simp add: demo_recorded_def)
  from m t d demo_record demo_stop_then_click show ?thesis
    by (simp only: k simp_thms)
qed

lemma handle_recorded_shape:
  assumes "\<forall>st\<in>set (macro (snd sw)). recorded_shape st"
  shows "\<forall>st\<in>set (macro (snd (handle start e sw))). recorded_shape st"
proof -
  obtain now ev where e: "e = (now, ev)" by (cases e)
  obtain s w where sw: "sw = (s, w)" by (cases sw)
  show ?thesis
    using assms unfolding e sw
    by (cases ev)
       (auto simp: on_click_def on_press_def on_release_def recorded_shape_def Let_def)
qed

lemma run_listeners_recorded_shape:
  "\<forall>st\<in>set (macro (snd sw)). recorded_shape st \<Longrightarrow>
   \<forall>st\<in>set (macro (snd (run_listeners start evs sw))). recorded_shape st"
proof (induction evs arbitrary: sw)
  case Nil
  then show ?case by simp
next
  case (Cons e evs)
  from Cons.IH [OF handle_recorded_shape [OF Cons.prems]] show ?case by simp
qed

text \<open>
  C10: let \<open>w2\<close> be any world whose macro list is the one the listeners of a call of
  \<^verbatim>\<open>record_macro\<close> have built after any events (the world the call returns is one).
  Every record in it is a mouse record with three components or a hotkey record with the
  payload \<^verbatim>\<open>("ctrl", "v")\<close>; for each the player takes the mouse branch, where the
  unpacking succeeds, or the hotkey branch, never the fall-through for another type; and
  \<^verbatim>\<open>play_macro\<close> in \<open>w2\<close> raises no exception.
\<close>

theorem C10_recorded_records_covered:
  assumes "macro w2 = macro (snd (run_listeners start evs (new_session, record_macro_begin w)))"
  shows "(\<forall>st\<in>set (macro w2). recorded_shape st
            \<and> ((\<exists>x y. step_action st = Inr [MoveTo x y, Click])
                \<or> step_action st = Inr [Hotkey [PStr ''ctrl'', PStr ''v'']]))
         \<and> (\<forall>text ew. play_macro text w2 \<noteq> Some (Inl ew))
         \<and> (\<forall>w'. record_macro start evs w = Some w' \<longrightarrow> macro w' = macro w2)"
proof -
  have "\<forall>st\<in>set (macro (snd (new_session, record_macro_begin w))). recorded_shape st"
    by (simp add: record_macro_begin_def emit_def)
  from run_listeners_recorded_shape [OF this] assms
  have sh: "\<forall>st\<in>set (macro w2). recorded_shape st" by simp
  with recorded_shape_action play_macro_no_error [OF sh] record_macro_macro assms
  show ?thesis by metis
qed

theorem C10_recorded_records_covered_witness:
  "macro demo_world
     = macro (snd (run_listeners 10 demo_events (new_session, record_macro_begin stale_world)))
   \<and> record_macro 10 demo_events stale_world = Some demo_recorded
   \<and> macro demo_recorded = macro demo_world
   \<and> recorded_shape (macro demo_world ! 0) \<and> recorded_shape (macro demo_world ! 1)
   \<and> length (macro demo_world) = 2
   \<and> play_macro ''hi'' demo_world = Some (Inr demo_played)"
proof -
  have h: "macro demo_world
     = macro (snd (run_listeners 10 demo_events (new_session, record_macro_begin stale_world)))"
    by (simp add: record_macro_begin_def new_session_def demo_events_def
        stale_world_def demo_world_def on_click_def on_press_def on_release_def
        V_VK_def emit_def keys_add_def key_in_def key_ident_def)
  have l: "length (macro demo_world) = 2" by (simp add: demo_world_def)
  have m: "macro demo_world ! 0 \<in> set (macro demo_world)"
          "macro demo_world ! 1 \<in> set (macro demo_world)"
    by (simp_all add: demo_world_def)
  from C10_recorded_records_covered [OF h] m demo_record demo_run l h
  show ?thesis by auto
qed

section \<open>Properties of the transcription client\<close>

text \<open>
  C5, as stated: the sentinel is returned exactly when the response is not successful or
  its JSON lacks the \<^verbatim>\<open>text\<close> field, and the value of the field otherwise. A successful
  response whose \<^verbatim>\<open>text\<close> is itself \<^verbatim>\<open><err>\<close> yields the sentinel although neither
  condition holds; a successful response whose body is not JSON yields neither the sentinel
  nor a text: \<^verbatim>\<open>r.json()\<close> raises.
\<close>

theorem C5_counterexample:
  "send_audio [''a.wav'' \<mapsto> ()] (\<lambda>f. Some ok_text_is_sentinel) ''a.wav'' = Inr (JStr ''<err>'')
   \<and> ok ok_text_is_sentinel \<and> text_field ok_text_is_sentinel \<noteq> None
   \<and> send_audio [''a.wav'' \<mapsto> ()] (\<lambda>f. Some ok_not_json) ''a.wav'' = Inl JSONDecodeError
   \<and> text_field ok_not_json = None"
  by (simp add: send_audio_def ok_text_is_sentinel_def ok_not_json_def text_field_def)

text \<open>
  C5, amended: for every response that is not successful, or is successful with a JSON
  object as its body, \<^verbatim>\<open>send_audio\<close> returns the sentinel when the response is not
  successful or the object lacks the \<^verbatim>\<open>text\<close> field, and the value of the field
  otherwise; so it returns the sentinel exactly when the response is not successful, the
  field is missing, or the field's value is the sentinel string itself.
\<close>

theorem C5_sentinel_or_text:
  assumes "files p = Some f" and "post f = Some r"
    and "ok r \<longrightarrow> (\<exists>items. body r = Some (JObj items))"
  shows "(\<not> ok r \<or> text_field r = None \<longrightarrow> send_audio files post p = Inr (JStr ''<err>''))
       \<and> (\<forall>v. ok r \<and> text_field r = Some v \<longrightarrow> send_audio files post p = Inr v)
       \<and> (send_audio files post p = Inr (JStr ''<err>'')
            \<longleftrightarrow> \<not> ok r \<or> text_field r = None \<or> text_field r = Some (JStr ''<err>''))"
  using assms
  by (auto simp: send_audio_def text_field_def split: option.splits)

theorem C5_sentinel_or_text_witness:
  "[''a.wav'' \<mapsto> ()] ''a.wav'' = Some ()
   \<and> ok ok_hello \<and> body ok_hello = Some (JObj [(''text'', JStr ''hello'')])
   \<and> text_field ok_hello = Some (JStr ''hello'')
   \<and> send_audio [''a.wav'' \<mapsto> ()] (\<lambda>f. Some ok_hello) ''a.wav'' = Inr (JStr ''hello'')"
proof -
  have h1: "[''a.wav'' \<mapsto> ()] ''a.wav'' = Some ()" by simp
  have h2: "(\<lambda>f. Some ok_hello) () = Some ok_hello" by simp
  have b: "body ok_hello = Some (JObj [(''text'', JStr ''hello'')])"
    by (simp add: ok_hello_def)
  then have h3: "ok ok_hello \<longrightarrow> (\<exists>items. body ok_hello = Some (JObj items))"
    by simp
  have t: "text_field ok_hello = Some (JStr ''hello'')"
    by (simp add: text_field_def ok_hello_def)
  have o: "ok ok_hello" by (simp add: ok_hello_def)
  from C5_sentinel_or_text
         [of "[''a.wav'' \<mapsto> ()]" "''a.wav''" "()" "\<lambda>f. Some ok_hello" ok_hello, OF h1 h2 h3]
       t o h1 b
  show ?thesis by simp
qed

section \<open>Properties of the transcription service\<close>

text \<open>
  Once the upload has been copied, the temporary file is gone when the handler is left,
  whether the model returned a text or raised; when the copy raises, the handler is left
  before the statement that removes the file, and the file stays.
\<close>

lemma transcribe_audio_removes_temp_file:
  assumes "filename file = Some name" and "copy_fault env = None"
  shows "temp_name env (splitext_ext name) \<notin> dom (snd (transcribe_audio env file files))"
  using assms by (simp add: transcribe_audio_def Let_def)

lemma transcribe_audio_leaves_temp_file:
  assumes "filename file = Some name" and "copy_fault env = Some n"
  shows "temp_name env (splitext_ext name) \<in> dom (snd (transcribe_audio env file files))"
  using assms by (simp add: transcribe_audio_def Let_def)

lemma strip_unicode_white_space:
  "strip [CHR 0xE2, CHR 0x80, CHR 0x83, CHR 0x1C, CHR ''a'', CHR '' '', CHR ''b'',
          CHR 0xC2, CHR 0xA0, CHR 0x0A] = ''a b''"
  by (simp add: strip_def whitespace_def strip_prefixes.simps)

lemma transcribe_audio_demo_ok:
  "transcribe_audio (demo_env None) \<lparr>filename = Some ''hello world.wav'', content = [1, 2, 3]\<rparr>
     Map.empty = (JSONResponse [(''text'', JStr ''hello world'')], Map.empty)"
  by (simp add: transcribe_audio_def demo_env_def splitext_ext_def strip_def whitespace_def
        strip_prefixes.simps)

lemma transcribe_audio_demo_model_fails:
  "transcribe_audio (demo_env None) \<lparr>filename = Some ''hello world.wav'', content = []\<rparr>
     Map.empty = (HTTPException 500 ''Transcription failed: empty audio'', Map.empty)"
  by (simp add: transcribe_audio_def demo_env_def splitext_ext_def)

text \<open>
  C3 says that the temporary file is removed for every request. For an upload whose copy
  into the temporary file raises at once, the handler is left with the exception and the
  (empty) temporary file is still there.
\<close>

theorem C3_temp_file_left_when_copy_fails:
  "transcribe_audio (demo_env (Some 0)) \<lparr>filename = Some ''a.wav'', content = [1, 2, 3]\<rparr>
     Map.empty = (Unhandled OSError, [''/tmp/tmpabc.wav'' \<mapsto> []])"
  by (simp add: transcribe_audio_def demo_env_def splitext_ext_def)

end
